theory Spec2Isabelle
  imports Complex_Main "HOL-Library.Multiset"
begin

section \<open>The instrumented heap sort of \<^verbatim>\<open>pas.py\<close>\<close>

text \<open>
  The class \<^verbatim>\<open>HeapSort\<close> becomes a record of its attributes and every method
  a function that takes the instance and returns it updated.

  \<^item> \<^verbatim>\<open>__init__\<close> stores \<^verbatim>\<open>data.copy()\<close> twice: each attribute is a fresh list
    that no other name refers to, so both are list values of the record.
  \<^item> Elements are of any type \<open>'a\<close>; the keys \<open>'k\<close> that \<^verbatim>\<open>self.key\<close> yields are of
    one type with a comparison (class \<open>ord\<close>), so the \<^verbatim>\<open>TypeError\<close> of a pair of
    different, incomparable types is excluded by the type. Nothing is assumed of the
    comparison: on Python's \<^verbatim>\<open>float\<close> it is not an order, since every comparison
    with NaN is false.
  \<^item> The counters are Python integers: \<open>int\<close>.
  \<^item> \<^verbatim>\<open>execution_time\<close> is not assigned by \<^verbatim>\<open>__init__\<close>: the attribute is absent
    (\<open>None\<close>) until \<^verbatim>\<open>sort\<close> has set it. The two readings of \<^verbatim>\<open>time.time()\<close> are
    parameters of \<open>sort_hs\<close>.
  \<^item> A subscript out of range raises \<^verbatim>\<open>IndexError\<close>, reading an absent attribute
    raises \<^verbatim>\<open>AttributeError\<close>: results are of type \<open>error + _\<close>.
  \<^item> Indices and heap sizes are natural numbers: the methods that take them are
    internal and are called with \<^verbatim>\<open>len(self.data)\<close> and the values of
    \<^verbatim>\<open>range\<close> loops that stop at \<open>0\<close> or \<open>1\<close>.
\<close>

datatype error = IndexError | AttributeError

record ('a, 'k) HeapSort =
  original_data :: "'a list"
  data :: "'a list"
  reverse :: bool
  key :: "'a \<Rightarrow> 'k"
  comparisons :: int
  swaps :: int
  steps :: "'a list list"
  execution_time :: "real option"

text \<open>\<^verbatim>\<open>__init__(data, reverse, key)\<close>; the default policy is \<open>False\<close> and \<open>\<lambda>x. x\<close>.\<close>

definition HeapSort_init :: "'a list \<Rightarrow> bool \<Rightarrow> ('a \<Rightarrow> 'k) \<Rightarrow> ('a, 'k) HeapSort" where
  "HeapSort_init xs r k =
     \<lparr> original_data = xs, data = xs, reverse = r, key = k,
       comparisons = 0, swaps = 0, steps = [], execution_time = None \<rparr>"

subsection \<open>\<^verbatim>\<open>_heapify\<close>\<close>

text \<open>
  The test of lines 36 and 42: \<^verbatim>\<open>(key(data[c]) > key(data[l])) ^ reverse\<close>. On two
  booleans \<^verbatim>\<open>^\<close> is exclusive or, that is \<open>\<noteq>\<close>.
\<close>

definition xor_gt :: "('a, 'k::ord) HeapSort \<Rightarrow> nat \<Rightarrow> nat \<Rightarrow> bool" where
  "xor_gt s c l = ((key s (data s ! l) < key s (data s ! c)) \<noteq> reverse s)"

text \<open>
  One of the two blocks \<^verbatim>\<open>if child < n: ...\<close> (lines 34-37 with the left child,
  lines 40-43 with the right one): the counter is incremented before the subscripts are
  evaluated, and the result is the new value of \<^verbatim>\<open>largest\<close>.
\<close>

definition compare_child ::
  "nat \<Rightarrow> nat \<Rightarrow> nat \<Rightarrow> ('a, 'k::ord) HeapSort \<Rightarrow> error + (nat \<times> ('a, 'k) HeapSort)" where
  "compare_child n child largest s =
     (if child < n then
        (let s1 = s\<lparr>comparisons := comparisons s + 1\<rparr> in
         if child < length (data s1) \<and> largest < length (data s1) then
           Inr (if xor_gt s1 child largest then child else largest, s1)
         else Inl IndexError)
      else Inr (largest, s))"

text \<open>Lines 29-43: \<^verbatim>\<open>largest\<close> after both comparisons.\<close>

definition find_largest ::
  "nat \<Rightarrow> nat \<Rightarrow> ('a, 'k::ord) HeapSort \<Rightarrow> error + (nat \<times> ('a, 'k) HeapSort)" where
  "find_largest n i s =
     (case compare_child n (2 * i + 1) i s of
        Inl e \<Rightarrow> Inl e
      | Inr (largest, s1) \<Rightarrow> compare_child n (2 * i + 2) largest s1)"

text \<open>
  \<^verbatim>\<open>data[i], data[j] = data[j], data[i]\<close> followed by
  \<^verbatim>\<open>steps.append(data.copy())\<close> (lines 48-49 and 65-66).
\<close>

definition swap_and_log :: "nat \<Rightarrow> nat \<Rightarrow> ('a, 'k) HeapSort \<Rightarrow> error + ('a, 'k) HeapSort" where
  "swap_and_log i j s =
     (if i < length (data s) \<and> j < length (data s) then
        (let d = (data s)[i := data s ! j, j := data s ! i] in
         Inr (s\<lparr>data := d, steps := steps s @ [d]\<rparr>))
      else Inl IndexError)"

text \<open>Lines 46-50, the branch taken when \<^verbatim>\<open>largest != i\<close>, up to the recursive call.\<close>

definition heapify_swap :: "nat \<Rightarrow> nat \<Rightarrow> ('a, 'k) HeapSort \<Rightarrow> error + ('a, 'k) HeapSort" where
  "heapify_swap i largest s = swap_and_log i largest (s\<lparr>swaps := swaps s + 1\<rparr>)"

function heapify :: "nat \<Rightarrow> nat \<Rightarrow> ('a, 'k::ord) HeapSort \<Rightarrow> error + ('a, 'k) HeapSort" where
  "heapify n i s =
     (case find_largest n i s of
        Inl e \<Rightarrow> Inl e
      | Inr (largest, s1) \<Rightarrow>
          if largest \<noteq> i then
            (case heapify_swap i largest s1 of
               Inl e \<Rightarrow> Inl e
             | Inr s2 \<Rightarrow> heapify n largest s2)
          else Inr s1)"
  by pat_completeness auto
termination
proof (relation "measure (\<lambda>(n, i, s). n - i)")
  show "wf (measure (\<lambda>(n, i, s). n - i))" by simp
next
  fix n i :: nat and s :: "('a, 'k::ord) HeapSort" and x2 x y and s2 :: "('a, 'k) HeapSort"
  assume "find_largest n i s = Inr x2" "(x, y) = x2" "x \<noteq> i"
  then have "i < x \<and> x < n"
    by (auto simp: find_largest_def compare_child_def Let_def split: sum.splits if_splits)
  then show "((n, x, s2), (n, i, s)) \<in> measure (\<lambda>(n, i, s). n - i)"
    by (simp add: diff_less_mono2)
qed

declare heapify.simps [simp del]

text \<open>
  The indices of the successive invocations of \<^verbatim>\<open>_heapify\<close> that one call
  \<^verbatim>\<open>_heapify(n, i)\<close> makes, itself first: the same recursion, collecting \<open>i\<close>.
\<close>

function heapify_calls :: "nat \<Rightarrow> nat \<Rightarrow> ('a, 'k::ord) HeapSort \<Rightarrow> nat list" where
  "heapify_calls n i s =
     (case find_largest n i s of
        Inl e \<Rightarrow> [i]
      | Inr (largest, s1) \<Rightarrow>
          if largest \<noteq> i then
            (case heapify_swap i largest s1 of
               Inl e \<Rightarrow> [i]
             | Inr s2 \<Rightarrow> i # heapify_calls n largest s2)
          else [i])"
  by pat_completeness auto
termination
proof (relation "measure (\<lambda>(n, i, s). n - i)")
  show "wf (measure (\<lambda>(n, i, s). n - i))" by simp
next
  fix n i :: nat and s :: "('a, 'k::ord) HeapSort" and x2 x y and s2 :: "('a, 'k) HeapSort"
  assume "find_largest n i s = Inr x2" "(x, y) = x2" "x \<noteq> i"
  then have "i < x \<and> x < n"
    by (auto simp: find_largest_def compare_child_def Let_def split: sum.splits if_splits)
  then show "((n, x, s2), (n, i, s)) \<in> measure (\<lambda>(n, i, s). n - i)"
    by (simp add: diff_less_mono2)
qed

declare heapify_calls.simps [simp del]

subsection \<open>\<^verbatim>\<open>_build_heap\<close>, \<^verbatim>\<open>sort\<close> and \<^verbatim>\<open>analyze\<close>\<close>

text \<open>
  The loop of \<^verbatim>\<open>_build_heap\<close> over the values of \<^verbatim>\<open>range(n // 2 - 1, -1, -1)\<close>,
  which are \<open>n div 2 - 1, \<dots>, 0\<close>: the list \<open>rev [0..<n div 2]\<close>.
\<close>

fun build_loop :: "nat \<Rightarrow> nat list \<Rightarrow> ('a, 'k::ord) HeapSort \<Rightarrow> error + ('a, 'k) HeapSort" where
  "build_loop n [] s = Inr s"
| "build_loop n (i # is) s =
     (case heapify n i s of Inl e \<Rightarrow> Inl e | Inr s1 \<Rightarrow> build_loop n is s1)"

definition build_heap :: "('a, 'k::ord) HeapSort \<Rightarrow> error + ('a, 'k) HeapSort" where
  "build_heap s = (let n = length (data s) in build_loop n (rev [0..<n div 2]) s)"

text \<open>
  The loop of \<^verbatim>\<open>sort\<close> over the values of \<^verbatim>\<open>range(n-1, 0, -1)\<close>, which are
  \<open>n - 1, \<dots>, 1\<close>: the list \<open>rev [1..<n]\<close>. The exchange of line 65 is logged
  and does not touch \<^verbatim>\<open>self.swaps\<close>.
\<close>

fun extract_loop :: "nat list \<Rightarrow> ('a, 'k::ord) HeapSort \<Rightarrow> error + ('a, 'k) HeapSort" where
  "extract_loop [] s = Inr s"
| "extract_loop (i # is) s =
     (case swap_and_log 0 i s of
        Inl e \<Rightarrow> Inl e
      | Inr s1 \<Rightarrow>
          (case heapify i 0 s1 of Inl e \<Rightarrow> Inl e | Inr s2 \<Rightarrow> extract_loop is s2))"

text \<open>
  \<^verbatim>\<open>sort\<close> (here \<open>sort_hs\<close>): \<open>t0\<close> and \<open>t1\<close> are the values of \<^verbatim>\<open>time.time()\<close> at lines 60 and 69. The
  result is the returned list (\<^verbatim>\<open>self.data\<close>) and the instance.
\<close>

definition sort_hs ::
  "real \<Rightarrow> real \<Rightarrow> ('a, 'k::ord) HeapSort \<Rightarrow> error + ('a list \<times> ('a, 'k) HeapSort)" where
  "sort_hs t0 t1 s =
     (case build_heap s of
        Inl e \<Rightarrow> Inl e
      | Inr s1 \<Rightarrow>
          (let n = length (data s1) in
           case extract_loop (rev [1..<n]) s1 of
             Inl e \<Rightarrow> Inl e
           | Inr s2 \<Rightarrow>
               (let s3 = s2\<lparr>execution_time := Some (t1 - t0)\<rparr> in Inr (data s3, s3))))"

text \<open>
  \<^verbatim>\<open>analyze\<close>: the dictionary literal of lines 74-80, in the order of its keys.
  Reading \<^verbatim>\<open>self.execution_time\<close> before \<^verbatim>\<open>sort\<close> has assigned it raises.
\<close>

datatype stat = IntVal int | FloatVal real

definition analyze :: "('a, 'k) HeapSort \<Rightarrow> error + (string \<times> stat) list" where
  "analyze s =
     (case execution_time s of
        None \<Rightarrow> Inl AttributeError
      | Some t \<Rightarrow>
          Inr [(''data_size'', IntVal (int (length (data s)))),
               (''comparisons'', IntVal (comparisons s)),
               (''swaps'', IntVal (swaps s)),
               (''time'', FloatVal t),
               (''steps'', IntVal (int (length (steps s))))])"

subsection \<open>The order a policy stands for\<close>

text \<open>
  \<open>eff_le r k a b\<close>: \<open>a\<close> may come before \<open>b\<close> in a sequence sorted under the policy
  \<open>(r, k)\<close>, that is \<open>k a \<le> k b\<close> for an ascending sort and \<open>k b \<le> k a\<close> when
  \<open>reverse\<close> is set.
\<close>

definition eff_le :: "bool \<Rightarrow> ('a \<Rightarrow> 'k::ord) \<Rightarrow> 'a \<Rightarrow> 'a \<Rightarrow> bool" where
  "eff_le r k a b = (if r then k b \<le> k a else k a \<le> k b)"

text \<open>
  Python's \<^verbatim>\<open>float\<close> with its comparisons, as far as sorting is concerned: the
  finite values are rational numbers, and \<^verbatim>\<open>nan < x\<close>, \<^verbatim>\<open>x < nan\<close>, \<^verbatim>\<open>nan <= x\<close>
  and \<^verbatim>\<open>x <= nan\<close> are all false. (The infinities are left out.)
\<close>

datatype pyfloat = NaN | Fl rat

instantiation pyfloat :: ord
begin

definition less_eq_pyfloat :: "pyfloat \<Rightarrow> pyfloat \<Rightarrow> bool" where
  "less_eq_pyfloat a b = (case (a, b) of (Fl x, Fl y) \<Rightarrow> x \<le> y | _ \<Rightarrow> False)"

definition less_pyfloat :: "pyfloat \<Rightarrow> pyfloat \<Rightarrow> bool" where
  "less_pyfloat a b = (case (a, b) of (Fl x, Fl y) \<Rightarrow> x < y | _ \<Rightarrow> False)"

instance ..

end

text \<open>
  The comparison is a total preorder on the keys \<open>K\<close>: reflexive, total and
  transitive, with \<open><\<close> the strict part of \<open>\<le>\<close>. Integers, strings and the
  floats other than NaN are such keys.
\<close>

definition total_preorder_on :: "'k::ord set \<Rightarrow> bool" where
  "total_preorder_on K =
     ((\<forall>a\<in>K. a \<le> a) \<and>
      (\<forall>a\<in>K. \<forall>b\<in>K. a \<le> b \<or> b \<le> a) \<and>
      (\<forall>a\<in>K. \<forall>b\<in>K. (a < b) = (\<not> b \<le> a)) \<and>
      (\<forall>a\<in>K. \<forall>b\<in>K. \<forall>c\<in>K. a \<le> b \<longrightarrow> b \<le> c \<longrightarrow> a \<le> c))"

text \<open>The keys of the working sequence are totally preordered.\<close>

definition keys_total :: "('a, 'k::ord) HeapSort \<Rightarrow> bool" where
  "keys_total s = total_preorder_on (key s ` set (data s))"

text \<open>The step log is not empty and its last entry is the working sequence.\<close>

definition log_current :: "('a, 'k) HeapSort \<Rightarrow> bool" where
  "log_current s = (steps s \<noteq> [] \<and> last (steps s) = data s)"

subsection \<open>Heaps inside the working sequence\<close>

text \<open>
  The node \<open>j\<close> of the heap \<open>xs[0..<n]\<close> dominates its children \<open>2 * j + 1\<close> and
  \<open>2 * j + 2\<close>; \<open>le c p\<close> reads: \<open>c\<close> may come before \<open>p\<close> in the sorted sequence.
\<close>

definition heap_at :: "('a \<Rightarrow> 'a \<Rightarrow> bool) \<Rightarrow> 'a list \<Rightarrow> nat \<Rightarrow> nat \<Rightarrow> bool" where
  "heap_at le xs n j =
     ((2 * j + 1 < n \<longrightarrow> le (xs ! (2 * j + 1)) (xs ! j)) \<and>
      (2 * j + 2 < n \<longrightarrow> le (xs ! (2 * j + 2)) (xs ! j)))"

text \<open>
  What holds when \<^verbatim>\<open>_heapify(n, i)\<close> is entered: among the nodes from \<open>lo\<close> on, every
  node but \<open>i\<close> dominates its children, and the parent of \<open>i\<close> dominates the
  children of \<open>i\<close>.
\<close>

definition sift_inv :: "('a \<Rightarrow> 'a \<Rightarrow> bool) \<Rightarrow> 'a list \<Rightarrow> nat \<Rightarrow> nat \<Rightarrow> nat \<Rightarrow> bool" where
  "sift_inv le xs lo n i =
     ((\<forall>j. lo \<le> j \<and> j \<noteq> i \<longrightarrow> heap_at le xs n j) \<and>
      (\<forall>j. lo \<le> j \<and> (i = 2 * j + 1 \<or> i = 2 * j + 2) \<longrightarrow>
           (2 * i + 1 < n \<longrightarrow> le (xs ! (2 * i + 1)) (xs ! j)) \<and>
           (2 * i + 2 < n \<longrightarrow> le (xs ! (2 * i + 2)) (xs ! j))))"

text \<open>
  What holds before each iteration of the extraction loop with \<open>m\<close> elements left in
  the heap: \<open>xs[0..<m]\<close> is a heap, the rest is sorted, and nothing in the heap has to
  come after an element of the rest.
\<close>

definition ext_inv :: "('a \<Rightarrow> 'a \<Rightarrow> bool) \<Rightarrow> 'a list \<Rightarrow> nat \<Rightarrow> bool" where
  "ext_inv le xs m =
     ((\<forall>j. heap_at le xs m j) \<and> sorted_wrt le (drop m xs) \<and>
      (\<forall>x\<in>set (take m xs). \<forall>y\<in>set (drop m xs). le x y))"

section \<open>What one call changes\<close>

lemma compare_child_cases:
  assumes "compare_child n c l s = Inr (l', s')"
  shows "l' = l \<or> (l' = c \<and> c < n \<and> c < length (data s))"
  using assms by (auto simp: compare_child_def Let_def split: if_splits)

lemma find_largest_cases:
  assumes "find_largest n i s = Inr (l, s')"
  shows "l = i \<or> (i < l \<and> l < n)"
proof -
  from assms obtain l1 s1 where
    a: "compare_child n (2 * i + 1) i s = Inr (l1, s1)" and
    b: "compare_child n (2 * i + 2) l1 s1 = Inr (l, s')"
    by (auto simp: find_largest_def split: sum.splits)
  from compare_child_cases[OF a] compare_child_cases[OF b] show ?thesis by auto
qed

lemma compare_child_frame:
  assumes "compare_child n c l s = Inr (l', s')"
  shows "original_data s' = original_data s \<and> data s' = data s \<and> reverse s' = reverse s
    \<and> key s' = key s \<and> swaps s' = swaps s \<and> steps s' = steps s
    \<and> execution_time s' = execution_time s"
  using assms by (auto simp: compare_child_def Let_def split: if_splits)

lemma find_largest_frame:
  assumes "find_largest n i s = Inr (l, s')"
  shows "original_data s' = original_data s \<and> data s' = data s \<and> reverse s' = reverse s
    \<and> key s' = key s \<and> swaps s' = swaps s \<and> steps s' = steps s
    \<and> execution_time s' = execution_time s"
proof -
  from assms obtain l1 s1 where
    a: "compare_child n (2 * i + 1) i s = Inr (l1, s1)" and
    b: "compare_child n (2 * i + 2) l1 s1 = Inr (l, s')"
    by (auto simp: find_largest_def split: sum.splits)
  from compare_child_frame[OF a] compare_child_frame[OF b] show ?thesis by simp
qed

lemma swap_and_log_frame:
  assumes "swap_and_log i j s = Inr s'"
  shows "original_data s' = original_data s \<and> reverse s' = reverse s \<and> key s' = key s
    \<and> comparisons s' = comparisons s \<and> swaps s' = swaps s
    \<and> execution_time s' = execution_time s
    \<and> data s' = (data s)[i := data s ! j, j := data s ! i]
    \<and> steps s' = steps s @ [data s'] \<and> i < length (data s) \<and> j < length (data s)"
  using assms by (auto simp: swap_and_log_def Let_def split: if_splits)

lemma heapify_swap_frame:
  assumes "heapify_swap i j s = Inr s'"
  shows "original_data s' = original_data s \<and> reverse s' = reverse s \<and> key s' = key s
    \<and> comparisons s' = comparisons s \<and> swaps s' = swaps s + 1
    \<and> execution_time s' = execution_time s
    \<and> data s' = (data s)[i := data s ! j, j := data s ! i]
    \<and> steps s' = steps s @ [data s'] \<and> i < length (data s) \<and> j < length (data s)"
  using swap_and_log_frame[of i j "s\<lparr>swaps := swaps s + 1\<rparr>" s'] assms
  by (simp add: heapify_swap_def)

text \<open>One unfolding of \<open>heapify\<close>, as the two ways in which it returns.\<close>

lemma heapify_Inr_cases:
  assumes "heapify n i s = Inr s'"
  obtains (stop) "find_largest n i s = Inr (i, s')"
  | (swap) l s1 s2 where "find_largest n i s = Inr (l, s1)" "l \<noteq> i"
      "heapify_swap i l s1 = Inr s2" "heapify n l s2 = Inr s'"
  using assms by (subst (asm) heapify.simps) (auto split: sum.splits if_splits)

lemma heapify_frame:
  "heapify n i s = Inr s' \<Longrightarrow>
     original_data s' = original_data s \<and> reverse s' = reverse s \<and> key s' = key s
     \<and> execution_time s' = execution_time s \<and> length (data s') = length (data s)
     \<and> int (length (steps s')) - swaps s' = int (length (steps s)) - swaps s"
proof (induction n i s arbitrary: s' rule: heapify.induct)
  case (1 n i s)
  from "1.prems" show ?case
  proof (cases rule: heapify_Inr_cases)
    case stop
    from find_largest_frame[OF stop] show ?thesis by simp
  next
    case (swap l s1 s2)
    note fl = find_largest_frame[OF swap(1)]
    note hs = heapify_swap_frame[OF swap(3)]
    note ih = "1.IH"[OF swap(1) refl swap(2) swap(3) swap(4)]
    from fl hs ih show ?thesis by simp
  qed
qed

section \<open>No subscript is out of range\<close>

lemma compare_child_total:
  assumes "n \<le> length (data s)" "l < length (data s)"
  shows "\<exists>l' s'. compare_child n c l s = Inr (l', s')"
  using assms by (simp add: compare_child_def Let_def)

lemma find_largest_total:
  assumes "n \<le> length (data s)"
  shows "\<exists>l s'. find_largest n i s = Inr (l, s')"
proof (cases "2 * i + 1 < n")
  case True
  with assms have "i < length (data s)" by simp
  from compare_child_total[OF assms this] obtain l1 s1 where
    a: "compare_child n (2 * i + 1) i s = Inr (l1, s1)" by blast
  from compare_child_cases[OF a] True assms have "l1 < length (data s)" by auto
  with compare_child_frame[OF a] assms
  have "n \<le> length (data s1)" "l1 < length (data s1)" by simp_all
  from compare_child_total[OF this] a show ?thesis by (simp add: find_largest_def)
next
  case False
  then show ?thesis by (simp add: find_largest_def compare_child_def)
qed

lemma heapify_total:
  "n \<le> length (data s) \<Longrightarrow> \<exists>s'. heapify n i s = Inr s'"
proof (induction n i s rule: heapify.induct)
  case (1 n i s)
  from find_largest_total[OF "1.prems"] obtain l s1 where
    fl: "find_largest n i s = Inr (l, s1)" by blast
  show ?case
  proof (cases "l = i")
    case True
    with fl show ?thesis by (subst heapify.simps) simp
  next
    case False
    with find_largest_cases[OF fl] have "i < l" "l < n" by simp_all
    with "1.prems" find_largest_frame[OF fl]
    have "i < length (data s1)" "l < length (data s1)" by simp_all
    then obtain s2 where hs: "heapify_swap i l s1 = Inr s2"
      by (simp add: heapify_swap_def swap_and_log_def Let_def)
    from heapify_swap_frame[OF hs] find_largest_frame[OF fl] "1.prems"
    have "n \<le> length (data s2)" by simp
    from "1.IH"[OF fl refl False hs this] obtain s' where "heapify n l s2 = Inr s'" by blast
    with fl False hs show ?thesis by (subst heapify.simps) simp
  qed
qed

lemma build_loop_frame:
  "build_loop n js s = Inr s' \<Longrightarrow>
     original_data s' = original_data s \<and> reverse s' = reverse s \<and> key s' = key s
     \<and> execution_time s' = execution_time s \<and> length (data s') = length (data s)
     \<and> int (length (steps s')) - swaps s' = int (length (steps s)) - swaps s"
proof (induction js arbitrary: s)
  case Nil
  then show ?case by simp
next
  case (Cons j js)
  from Cons.prems obtain s1 where
    h: "heapify n j s = Inr s1" and r: "build_loop n js s1 = Inr s'"
    by (auto split: sum.splits)
  from heapify_frame[OF h] Cons.IH[OF r] show ?case by simp
qed

lemma build_loop_total:
  "n \<le> length (data s) \<Longrightarrow> \<exists>s'. build_loop n js s = Inr s'"
proof (induction js arbitrary: s)
  case Nil
  then show ?case by simp
next
  case (Cons j js)
  from heapify_total[OF Cons.prems] obtain s1 where h: "heapify n j s = Inr s1" by blast
  from heapify_frame[OF h] Cons.prems have "n \<le> length (data s1)" by simp
  from Cons.IH[OF this] h show ?case by simp
qed

lemma extract_loop_frame:
  "extract_loop js s = Inr s' \<Longrightarrow>
     original_data s' = original_data s \<and> reverse s' = reverse s \<and> key s' = key s
     \<and> execution_time s' = execution_time s \<and> length (data s') = length (data s)
     \<and> int (length (steps s')) - swaps s'
         = int (length (steps s)) - swaps s + int (length js)"
proof (induction js arbitrary: s)
  case Nil
  then show ?case by simp
next
  case (Cons j js)
  from Cons.prems obtain s1 s2 where
    w: "swap_and_log 0 j s = Inr s1" and h: "heapify j 0 s1 = Inr s2"
    and r: "extract_loop js s2 = Inr s'"
    by (auto split: sum.splits)
  from swap_and_log_frame[OF w] heapify_frame[OF h] Cons.IH[OF r] show ?case by simp
qed

lemma extract_loop_total:
  "\<forall>j\<in>set js. j < length (data s) \<Longrightarrow> \<exists>s'. extract_loop js s = Inr s'"
proof (induction js arbitrary: s)
  case Nil
  then show ?case by simp
next
  case (Cons j js)
  from Cons.prems have j: "j < length (data s)" by simp
  then have "data s \<noteq> []" by auto
  with j obtain s1 where w: "swap_and_log 0 j s = Inr s1"
    by (simp add: swap_and_log_def Let_def)
  from swap_and_log_frame[OF w] j have "j \<le> length (data s1)" by simp
  from heapify_total[OF this] obtain s2 where h: "heapify j 0 s1 = Inr s2" by blast
  from swap_and_log_frame[OF w] heapify_frame[OF h] Cons.prems
  have "\<forall>j\<in>set js. j < length (data s2)" by simp
  from Cons.IH[OF this] w h show ?case by simp
qed

text \<open>\<open>sort_hs\<close> as its two loops, for any instance.\<close>

lemma sort_hs_phases:
  obtains s1 s2 where
    "build_loop (length (data s)) (rev [0..<length (data s) div 2]) s = Inr s1"
    "extract_loop (rev [1..<length (data s)]) s1 = Inr s2"
    "sort_hs t0 t1 s = Inr (data s2, s2\<lparr>execution_time := Some (t1 - t0)\<rparr>)"
proof -
  obtain s1 where b: "build_loop (length (data s)) (rev [0..<length (data s) div 2]) s = Inr s1"
    using build_loop_total[of "length (data s)" s] by blast
  from build_loop_frame[OF b] have len: "length (data s1) = length (data s)" by simp
  then have "\<forall>j\<in>set (rev [1..<length (data s)]). j < length (data s1)" by simp
  from extract_loop_total[OF this] obtain s2 where
    e: "extract_loop (rev [1..<length (data s)]) s1 = Inr s2" by blast
  from b e len
  have "sort_hs t0 t1 s = Inr (data s2, s2\<lparr>execution_time := Some (t1 - t0)\<rparr>)"
    by (simp add: sort_hs_def build_heap_def Let_def)
  with b e that show thesis by blast
qed

section \<open>The claims\<close>

subsection \<open>\<^verbatim>\<open>analyze\<close>\<close>

text \<open>
  C5. On an instance on which \<^verbatim>\<open>sort\<close> has not run, \<^verbatim>\<open>analyze\<close> raises: the
  attribute \<^verbatim>\<open>execution_time\<close> does not exist yet, so no statistics record is returned,
  whatever the input sequence and the policy. (\<^verbatim>\<open>analyze\<close> assigns nothing, so calling
  it again does not change this.)
\<close>

theorem analyze_before_sort:
  "analyze (HeapSort_init xs r k) = Inl AttributeError"
  by (simp add: analyze_def HeapSort_init_def)

text \<open>
  C4, as stated: the fields of the record that \<^verbatim>\<open>analyze\<close> returns are named
  \<^verbatim>\<open>size\<close>, \<^verbatim>\<open>comparisons\<close>, \<^verbatim>\<open>swaps\<close>, \<^verbatim>\<open>elapsed_time\<close> and \<^verbatim>\<open>step_count\<close>.
  After sorting \<open>[2, 1]\<close> the set of keys of the dictionary is another one.
\<close>

theorem analyze_field_names_counterexample:
  "set (map fst (projr (analyze (snd (projr (sort_hs 0 1 (HeapSort_init [2, 1 :: int] False id))))))) \<noteq>
     {''size'', ''comparisons'', ''swaps'', ''elapsed_time'', ''step_count''}"
  by code_simp

text \<open>
  C4, amended: after \<^verbatim>\<open>sort\<close>, \<^verbatim>\<open>analyze\<close> returns the dictionary with the keys
  \<^verbatim>\<open>data_size\<close>, \<^verbatim>\<open>comparisons\<close>, \<^verbatim>\<open>swaps\<close>, \<^verbatim>\<open>time\<close> and \<^verbatim>\<open>steps\<close>, in this order,
  where \<^verbatim>\<open>data_size\<close> is the length of the sequence, \<^verbatim>\<open>comparisons\<close> and \<^verbatim>\<open>swaps\<close>
  are the counters, \<^verbatim>\<open>time\<close> is the duration of the sort and \<^verbatim>\<open>steps\<close> is the number
  of entries of the step log.
\<close>

theorem analyze_after_sort:
  "\<exists>res s'. sort_hs t0 t1 s = Inr (res, s') \<and>
     analyze s' = Inr [(''data_size'', IntVal (int (length (data s)))),
                      (''comparisons'', IntVal (comparisons s')),
                      (''swaps'', IntVal (swaps s')),
                      (''time'', FloatVal (t1 - t0)),
                      (''steps'', IntVal (int (length (steps s'))))]"
proof -
  obtain s1 s2 where
    b: "build_loop (length (data s)) (rev [0..<length (data s) div 2]) s = Inr s1" and
    e: "extract_loop (rev [1..<length (data s)]) s1 = Inr s2" and
    r: "sort_hs t0 t1 s = Inr (data s2, s2\<lparr>execution_time := Some (t1 - t0)\<rparr>)"
    by (rule sort_hs_phases)
  from build_loop_frame[OF b] extract_loop_frame[OF e]
  have "length (data s2) = length (data s)" by simp
  with r show ?thesis by (simp add: analyze_def)
qed

subsection \<open>Small inputs and the counters\<close>

text \<open>
  C6. Sorting the empty sequence returns the empty sequence, sorting a one-element
  sequence returns it unchanged, and in both cases the counters \<^verbatim>\<open>comparisons\<close> and
  \<^verbatim>\<open>swaps\<close> are \<open>0\<close> afterwards, for every policy.
\<close>

theorem sort_empty_singleton:
  "(\<exists>s'. sort_hs t0 t1 (HeapSort_init [] r k) = Inr ([], s') \<and> comparisons s' = 0 \<and> swaps s' = 0) \<and>
   (\<exists>s'. sort_hs t0 t1 (HeapSort_init [x] r k) = Inr ([x], s') \<and> comparisons s' = 0 \<and> swaps s' = 0)"
  by (simp add: sort_hs_def build_heap_def HeapSort_init_def)

text \<open>
  C2 says that after \<^verbatim>\<open>sort\<close> the step log has as many entries as \<^verbatim>\<open>swaps\<close> counts.
  Sorting \<open>[1, 2]\<close> ascending: building the heap exchanges the two elements once
  (\<^verbatim>\<open>swaps\<close> becomes \<open>1\<close>, one snapshot), and the extraction loop exchanges them back
  at line 65 and logs a second snapshot without counting the exchange.
\<close>

theorem step_log_longer_than_swaps:
  "\<not> isl (sort_hs 0 1 (HeapSort_init [1, 2 :: int] False id))
   \<and> fst (projr (sort_hs 0 1 (HeapSort_init [1, 2 :: int] False id))) = [1, 2]
   \<and> swaps (snd (projr (sort_hs 0 1 (HeapSort_init [1, 2 :: int] False id)))) = 1
   \<and> steps (snd (projr (sort_hs 0 1 (HeapSort_init [1, 2 :: int] False id)))) = [[2, 1], [1, 2]]"
  by code_simp

text \<open>
  C10. After one \<^verbatim>\<open>sort\<close> of a sequence of length \<open>n\<close> on a new instance, the step
  log has \<^verbatim>\<open>swaps\<close> plus \<open>max (n - 1) 0\<close> entries: every exchange inside \<^verbatim>\<open>_heapify\<close>
  is counted and logged, every iteration of the extraction loop logs its exchange and
  does not count it.
\<close>

theorem steps_count_after_sort:
  "\<exists>res s'. sort_hs t0 t1 (HeapSort_init xs r k) = Inr (res, s')
     \<and> int (length (steps s')) = swaps s' + max (int (length xs) - 1) 0"
proof -
  let ?s = "HeapSort_init xs r k"
  obtain s1 s2 where
    b: "build_loop (length (data ?s)) (rev [0..<length (data ?s) div 2]) ?s = Inr s1" and
    e: "extract_loop (rev [1..<length (data ?s)]) s1 = Inr s2" and
    r: "sort_hs t0 t1 ?s = Inr (data s2, s2\<lparr>execution_time := Some (t1 - t0)\<rparr>)"
    by (rule sort_hs_phases)
  from build_loop_frame[OF b] extract_loop_frame[OF e]
  have "int (length (steps s2)) - swaps s2 = int (length xs - 1)"
    by (simp add: HeapSort_init_def)
  then have "int (length (steps s2)) = swaps s2 + max (int (length xs) - 1) 0"
    by linarith
  with r show ?thesis by simp
qed

subsection \<open>Equal keys\<close>

text \<open>
  C3, as stated: under every policy a child whose key equals the key of the current
  largest element is not selected, so equal elements never cause a swap. With
  \<^verbatim>\<open>reverse\<close> set the test is \<^verbatim>\<open>(key(child) > key(largest)) ^ True\<close>, which holds for
  equal keys: on \<open>[1, 1]\<close> the left child is selected and \<^verbatim>\<open>_heapify(2, 0)\<close> swaps.
\<close>

theorem tie_selects_child_counterexample:
  "key (HeapSort_init [1, 1 :: int] True id) (data (HeapSort_init [1, 1 :: int] True id) ! 1)
     = key (HeapSort_init [1, 1 :: int] True id) (data (HeapSort_init [1, 1 :: int] True id) ! 0)
   \<and> \<not> isl (compare_child 2 1 0 (HeapSort_init [1, 1 :: int] True id))
   \<and> fst (projr (compare_child 2 1 0 (HeapSort_init [1, 1 :: int] True id))) = 1
   \<and> \<not> isl (heapify 2 0 (HeapSort_init [1, 1 :: int] True id))
   \<and> swaps (projr (heapify 2 0 (HeapSort_init [1, 1 :: int] True id))) = 1
   \<and> steps (projr (heapify 2 0 (HeapSort_init [1, 1 :: int] True id))) = [[1, 1]]"
  by code_simp

text \<open>
  C3, amended: when \<^verbatim>\<open>reverse\<close> is false, a comparison of a child whose key equals the
  key of the current largest element does not select the child; and a call
  \<^verbatim>\<open>_heapify(n, i)\<close> with \<open>n\<close> at most the length of the working sequence, in which each
  child of \<open>i\<close> inside the heap has the key of the element at \<open>i\<close>, returns without a
  swap: \<^verbatim>\<open>swaps\<close>, the working sequence and the step log are as before.
\<close>

theorem tie_keeps_largest_ascending:
  fixes s :: "('a, 'k::preorder) HeapSort"
  assumes "\<not> reverse s" "n \<le> length (data s)"
    and "2 * i + 1 < n \<longrightarrow> key s (data s ! (2 * i + 1)) = key s (data s ! i)"
    and "2 * i + 2 < n \<longrightarrow> key s (data s ! (2 * i + 2)) = key s (data s ! i)"
  shows "(\<forall>c l l' s'. key s (data s ! c) = key s (data s ! l) \<longrightarrow>
            compare_child n c l s = Inr (l', s') \<longrightarrow> l' = l)
    \<and> (\<exists>s'. heapify n i s = Inr s' \<and> swaps s' = swaps s \<and> data s' = data s
          \<and> steps s' = steps s)"
proof -
  have sel: "l' = l" if "key s (data s ! c) = key s (data s ! l)"
    "compare_child n c l s = Inr (l', s')" for c l l' s'
    using that assms(1) by (auto simp: compare_child_def xor_gt_def Let_def split: if_splits)
  from find_largest_total[OF assms(2)] obtain l s1 where
    fl: "find_largest n i s = Inr (l, s1)" by blast
  then obtain l1 s0 where
    a: "compare_child n (2 * i + 1) i s = Inr (l1, s0)" and
    b: "compare_child n (2 * i + 2) l1 s0 = Inr (l, s1)"
    by (auto simp: find_largest_def split: sum.splits)
  have l1: "l1 = i"
  proof (cases "2 * i + 1 < n")
    case True
    with assms(3) a show ?thesis by (intro sel[of "2 * i + 1" i l1 s0]) simp_all
  next
    case False
    with a show ?thesis by (simp add: compare_child_def)
  qed
  have "l = i"
  proof (cases "2 * i + 2 < n")
    case True
    from compare_child_frame[OF a] assms(1,4) True
    have "\<not> reverse s0" "key s0 (data s0 ! (2 * i + 2)) = key s0 (data s0 ! i)" by simp_all
    with b l1 True show ?thesis
      by (auto simp: compare_child_def xor_gt_def Let_def split: if_splits)
  next
    case False
    with b l1 show ?thesis by (simp add: compare_child_def)
  qed
  with fl have "heapify n i s = Inr s1" by (subst heapify.simps) simp
  with find_largest_frame[OF fl] sel show ?thesis by blast
qed

theorem tie_keeps_largest_ascending_witness:
  "\<not> reverse (HeapSort_init [1, 1, 1 :: int] False id)
   \<and> (3::nat) \<le> length (data (HeapSort_init [1, 1, 1 :: int] False id))
   \<and> key (HeapSort_init [1, 1, 1 :: int] False id) (data (HeapSort_init [1, 1, 1 :: int] False id) ! 1)
       = key (HeapSort_init [1, 1, 1 :: int] False id) (data (HeapSort_init [1, 1, 1 :: int] False id) ! 0)
   \<and> key (HeapSort_init [1, 1, 1 :: int] False id) (data (HeapSort_init [1, 1, 1 :: int] False id) ! 2)
       = key (HeapSort_init [1, 1, 1 :: int] False id) (data (HeapSort_init [1, 1, 1 :: int] False id) ! 0)
   \<and> fst (projr (compare_child 3 1 0 (HeapSort_init [1, 1, 1 :: int] False id))) = 0
   \<and> \<not> isl (heapify 3 0 (HeapSort_init [1, 1, 1 :: int] False id))
   \<and> swaps (projr (heapify 3 0 (HeapSort_init [1, 1, 1 :: int] False id))) = 0
   \<and> data (projr (heapify 3 0 (HeapSort_init [1, 1, 1 :: int] False id))) = [1, 1, 1]
   \<and> steps (projr (heapify 3 0 (HeapSort_init [1, 1, 1 :: int] False id))) = []"
  using tie_keeps_largest_ascending[of "HeapSort_init [1, 1, 1 :: int] False id" 3 0]
  by (auto simp: HeapSort_init_def compare_child_def xor_gt_def)

subsection \<open>The stored original\<close>

text \<open>
  C9. After construction \<^verbatim>\<open>original_data\<close> is the sequence that was passed in, and a
  call of \<^verbatim>\<open>sort\<close> on any instance returns normally and leaves \<^verbatim>\<open>original_data\<close> as
  it was: the instance afterwards differs from the one before at most in \<^verbatim>\<open>data\<close>,
  \<^verbatim>\<open>comparisons\<close>, \<^verbatim>\<open>swaps\<close>, \<^verbatim>\<open>steps\<close> and \<^verbatim>\<open>execution_time\<close>. \<^verbatim>\<open>analyze\<close> assigns
  to no attribute: it is a function of the instance that returns only the dictionary.
\<close>

theorem original_data_unchanged:
  "original_data (HeapSort_init xs r k) = xs
   \<and> (\<exists>res s' d c w l. sort_hs t0 t1 s = Inr (res, s')
        \<and> original_data s' = original_data s
        \<and> s' = s\<lparr>data := d, comparisons := c, swaps := w, steps := l,
                 execution_time := Some (t1 - t0)\<rparr>)"
proof -
  obtain s1 s2 where
    b: "build_loop (length (data s)) (rev [0..<length (data s) div 2]) s = Inr s1" and
    e: "extract_loop (rev [1..<length (data s)]) s1 = Inr s2" and
    r: "sort_hs t0 t1 s = Inr (data s2, s2\<lparr>execution_time := Some (t1 - t0)\<rparr>)"
    by (rule sort_hs_phases)
  let ?s' = "s2\<lparr>execution_time := Some (t1 - t0)\<rparr>"
  from build_loop_frame[OF b] extract_loop_frame[OF e]
  have f: "original_data s2 = original_data s" "reverse s2 = reverse s" "key s2 = key s"
    by simp_all
  then have "?s' = s\<lparr>data := data s2, comparisons := comparisons s2, swaps := swaps s2,
      steps := steps s2, execution_time := Some (t1 - t0)\<rparr>"
    by (intro HeapSort.equality) simp_all
  with r f show ?thesis by (auto simp: HeapSort_init_def)
qed

subsection \<open>The last entry of the step log\<close>

lemma heapify_log_current:
  "heapify n i s = Inr s' \<Longrightarrow> log_current s \<Longrightarrow> log_current s'"
proof (induction n i s arbitrary: s' rule: heapify.induct)
  case (1 n i s)
  from "1.prems"(1) show ?case
  proof (cases rule: heapify_Inr_cases)
    case stop
    from find_largest_frame[OF stop] "1.prems"(2) show ?thesis by (simp add: log_current_def)
  next
    case (swap l s1 s2)
    from heapify_swap_frame[OF swap(3)] have "log_current s2" by (simp add: log_current_def)
    from "1.IH"[OF swap(1) refl swap(2) swap(3) swap(4) this] show ?thesis .
  qed
qed

lemma extract_loop_log_current:
  "extract_loop js s = Inr s' \<Longrightarrow> js \<noteq> [] \<or> log_current s \<Longrightarrow> log_current s'"
proof (induction js arbitrary: s)
  case Nil
  then show ?case by simp
next
  case (Cons j js)
  from Cons.prems(1) obtain s1 s2 where
    w: "swap_and_log 0 j s = Inr s1" and h: "heapify j 0 s1 = Inr s2"
    and r: "extract_loop js s2 = Inr s'"
    by (auto split: sum.splits)
  from swap_and_log_frame[OF w] have "log_current s1" by (simp add: log_current_def)
  from heapify_log_current[OF h this] have "log_current s2" .
  with Cons.IH[OF r] show ?case by simp
qed

text \<open>
  C7. After \<^verbatim>\<open>sort\<close> on a new instance, for every input sequence and policy, if the
  step log is not empty then its last entry is the sequence that \<^verbatim>\<open>sort\<close> returned.
\<close>

theorem last_step_is_result:
  "\<exists>res s'. sort_hs t0 t1 (HeapSort_init xs r k) = Inr (res, s')
     \<and> (steps s' \<noteq> [] \<longrightarrow> last (steps s') = res)"
proof -
  let ?s = "HeapSort_init xs r k"
  obtain s1 s2 where
    b: "build_loop (length (data ?s)) (rev [0..<length (data ?s) div 2]) ?s = Inr s1" and
    e: "extract_loop (rev [1..<length (data ?s)]) s1 = Inr s2" and
    r: "sort_hs t0 t1 ?s = Inr (data s2, s2\<lparr>execution_time := Some (t1 - t0)\<rparr>)"
    by (rule sort_hs_phases)
  have "steps s2 \<noteq> [] \<longrightarrow> last (steps s2) = data s2"
  proof (cases "length xs \<le> 1")
    case True
    then have "rev [0..<length (data ?s) div 2] = []" "rev [1..<length (data ?s)] = []"
      by (simp_all add: HeapSort_init_def)
    with b e have "s2 = ?s" by simp
    then show ?thesis by (simp add: HeapSort_init_def)
  next
    case False
    then have "rev [1..<length (data ?s)] \<noteq> []" by (auto simp: HeapSort_init_def)
    with extract_loop_log_current[OF e] show ?thesis by (simp add: log_current_def)
  qed
  with r show ?thesis by simp
qed

theorem last_step_is_result_witness:
  "steps (snd (projr (sort_hs 0 1 (HeapSort_init [3, 1, 2 :: int] False id)))) \<noteq> []
   \<and> last (steps (snd (projr (sort_hs 0 1 (HeapSort_init [3, 1, 2 :: int] False id)))))
     = fst (projr (sort_hs 0 1 (HeapSort_init [3, 1, 2 :: int] False id)))"
proof -
  have ne: "steps (snd (projr (sort_hs 0 1 (HeapSort_init [3, 1, 2 :: int] False id)))) \<noteq> []"
    by code_simp
  from last_step_is_result[of 0 1 "[3, 1, 2 :: int]" False id] ne show ?thesis by auto
qed

subsection \<open>Termination and depth of \<^verbatim>\<open>_heapify\<close>\<close>

lemma find_largest_child:
  assumes "find_largest n i s = Inr (l, s')"
  shows "l = i \<or> ((l = 2 * i + 1 \<or> l = 2 * i + 2) \<and> l < n)"
proof -
  from assms obtain l1 s1 where
    a: "compare_child n (2 * i + 1) i s = Inr (l1, s1)" and
    b: "compare_child n (2 * i + 2) l1 s1 = Inr (l, s')"
    by (auto simp: find_largest_def split: sum.splits)
  from compare_child_cases[OF a] compare_child_cases[OF b] show ?thesis by auto
qed

lemma heapify_calls_cases:
  obtains (stop) "heapify_calls n i s = [i]"
  | (swap) l s1 s2 where "find_largest n i s = Inr (l, s1)" "l \<noteq> i"
      "heapify_swap i l s1 = Inr s2" "heapify_calls n i s = i # heapify_calls n l s2"
proof (cases "find_largest n i s")
  case (Inl e)
  then have "heapify_calls n i s = [i]" by (subst heapify_calls.simps) simp
  then show thesis by (rule stop)
next
  case (Inr p)
  obtain l s1 where p: "p = (l, s1)" by (cases p)
  show thesis
  proof (cases "l = i")
    case True
    with Inr p have "heapify_calls n i s = [i]" by (subst heapify_calls.simps) simp
    then show thesis by (rule stop)
  next
    case False
    show thesis
    proof (cases "heapify_swap i l s1")
      case (Inl e)
      with Inr p False have "heapify_calls n i s = [i]" by (subst heapify_calls.simps) simp
      then show thesis by (rule stop)
    next
      case hs: (Inr s2)
      with Inr p False have "heapify_calls n i s = i # heapify_calls n l s2"
        by (subst heapify_calls.simps) simp
      with Inr p False hs show thesis by (intro swap[of l s1 s2]) simp_all
    qed
  qed
qed

lemma heapify_calls_shape:
  "i < n \<Longrightarrow>
     hd (heapify_calls n i s) = i \<and> heapify_calls n i s \<noteq> []
     \<and> successively (\<lambda>a b. a < b \<and> (b = 2 * a + 1 \<or> b = 2 * a + 2)) (heapify_calls n i s)
     \<and> (\<forall>j\<in>set (heapify_calls n i s). j < n)
     \<and> (i + 1) * 2 ^ (length (heapify_calls n i s) - 1) \<le> n"
proof (induction n i s rule: heapify_calls.induct)
  case (1 n i s)
  show ?case
  proof (rule heapify_calls_cases[of n i s])
    assume "heapify_calls n i s = [i]"
    with "1.prems" show ?thesis by simp
  next
    fix l s1 s2
    assume swap: "find_largest n i s = Inr (l, s1)" "l \<noteq> i"
      "heapify_swap i l s1 = Inr s2" "heapify_calls n i s = i # heapify_calls n l s2"
    from find_largest_child[OF swap(1)] swap(2)
    have l: "l = 2 * i + 1 \<or> l = 2 * i + 2" "l < n" by simp_all
    note ih = "1.IH"[OF swap(1) refl swap(2) swap(3) l(2)]
    let ?r = "heapify_calls n l s2"
    from ih obtain y ys where r: "?r = y # ys" by (cases ?r) auto
    with ih have y: "y = l" by simp
    from ih have "(l + 1) * 2 ^ (length ?r - 1) \<le> n" by simp
    moreover from l(1) have "2 * (i + 1) \<le> l + 1" by auto
    then have "2 * (i + 1) * 2 ^ (length ?r - 1) \<le> (l + 1) * 2 ^ (length ?r - 1)"
      by (rule mult_le_mono1)
    ultimately have "(i + 1) * 2 ^ (length (i # ?r) - 1) \<le> n"
      using r by (simp add: mult.assoc mult.left_commute)
    with ih l r y "1.prems" swap(4) show ?thesis by (auto simp: successively_Cons)
  qed
qed

text \<open>
  C8. For \<open>i < n \<le> len(data)\<close> the call \<^verbatim>\<open>_heapify(n, i)\<close> returns (the function
  \<open>heapify\<close> is total by its termination proof, and here it returns without an error).
  Each recursive call is on \<open>2 * a + 1\<close> or \<open>2 * a + 2\<close> where \<open>a\<close> is the index of
  the call that makes it, a strictly larger index below \<open>n\<close>, and the number of
  recursive calls, the depth of the recursion, is at most \<open>\<lceil>log\<^sub>2 n\<rceil>\<close>.
\<close>

theorem heapify_terminates:
  assumes "i < n" "n \<le> length (data s)"
  shows "(\<exists>s'. heapify n i s = Inr s')
    \<and> hd (heapify_calls n i s) = i
    \<and> successively (\<lambda>a b. a < b \<and> (b = 2 * a + 1 \<or> b = 2 * a + 2)) (heapify_calls n i s)
    \<and> (\<forall>j\<in>set (heapify_calls n i s). j < n)
    \<and> int (length (heapify_calls n i s) - 1) \<le> \<lceil>log 2 (real n)\<rceil>"
proof -
  let ?d = "length (heapify_calls n i s) - 1"
  note sh = heapify_calls_shape[OF assms(1), of s]
  then have "(i + 1) * 2 ^ ?d \<le> n" by simp
  moreover have "2 ^ ?d \<le> (i + 1) * 2 ^ ?d" by simp
  ultimately have "(2::nat) ^ ?d \<le> n" by (rule order_trans[rotated])
  then have "real ?d \<le> log 2 (real n)" by (rule le_log2_of_power)
  also have "\<dots> \<le> of_int \<lceil>log 2 (real n)\<rceil>" by (rule le_of_int_ceiling)
  finally have "int ?d \<le> \<lceil>log 2 (real n)\<rceil>" by linarith
  with sh heapify_total[OF assms(2), of i] show ?thesis by blast
qed

theorem heapify_terminates_witness:
  "(0::nat) < 8 \<and> 8 \<le> length (data (HeapSort_init [1, 2, 3, 4, 5, 6, 7, 8 :: int] False id))
   \<and> \<not> isl (heapify 8 0 (HeapSort_init [1, 2, 3, 4, 5, 6, 7, 8 :: int] False id))
   \<and> heapify_calls 8 0 (HeapSort_init [1, 2, 3, 4, 5, 6, 7, 8 :: int] False id) = [0, 2, 6]
   \<and> int (length (heapify_calls 8 0 (HeapSort_init [1, 2, 3, 4, 5, 6, 7, 8 :: int] False id)) - 1)
        \<le> \<lceil>log 2 (real 8)\<rceil>"
proof -
  have a: "(0::nat) < 8" by simp
  have b: "8 \<le> length (data (HeapSort_init [1, 2, 3, 4, 5, 6, 7, 8 :: int] False id))"
    by (simp add: HeapSort_init_def)
  have c: "heapify_calls 8 0 (HeapSort_init [1, 2, 3, 4, 5, 6, 7, 8 :: int] False id) = [0, 2, 6]"
    by code_simp
  from heapify_terminates[OF a b] a b c show ?thesis by auto
qed

subsection \<open>The result is sorted and a permutation\<close>

lemma refl_on_total:
  "total_preorder_on K \<Longrightarrow> a \<in> K \<Longrightarrow> a \<le> a"
  unfolding total_preorder_on_def by metis

lemma less_imp_le_on:
  "total_preorder_on K \<Longrightarrow> a \<in> K \<Longrightarrow> b \<in> K \<Longrightarrow> a < b \<Longrightarrow> a \<le> b"
  unfolding total_preorder_on_def by metis

lemma not_less_on:
  "total_preorder_on K \<Longrightarrow> a \<in> K \<Longrightarrow> b \<in> K \<Longrightarrow> \<not> a < b \<Longrightarrow> b \<le> a"
  unfolding total_preorder_on_def by metis

lemma trans_on:
  "total_preorder_on K \<Longrightarrow> a \<in> K \<Longrightarrow> b \<in> K \<Longrightarrow> c \<in> K \<Longrightarrow> a \<le> b \<Longrightarrow> b \<le> c \<Longrightarrow> a \<le> c"
  unfolding total_preorder_on_def by metis

lemma eff_le_refl_on:
  "total_preorder_on K \<Longrightarrow> k a \<in> K \<Longrightarrow> eff_le r k a a"
  by (simp add: eff_le_def refl_on_total)

lemma eff_le_trans_on:
  assumes "total_preorder_on K" "k a \<in> K" "k b \<in> K" "k c \<in> K"
    "eff_le r k a b" "eff_le r k b c"
  shows "eff_le r k a c"
proof (cases r)
  case True
  with assms(5,6) have "k c \<le> k b" "k b \<le> k a" by (simp_all add: eff_le_def)
  from trans_on[OF assms(1) assms(4) assms(3) assms(2) this] True show ?thesis
    by (simp add: eff_le_def)
next
  case False
  with assms(5,6) have "k a \<le> k b" "k b \<le> k c" by (simp_all add: eff_le_def)
  from trans_on[OF assms(1) assms(2) assms(3) assms(4) this] False show ?thesis
    by (simp add: eff_le_def)
qed

text \<open>The comparison of line 36 or 42 on keys that are totally ordered.\<close>

lemma xor_gt_sel:
  assumes "keys_total s" "c < length (data s)" "l < length (data s)"
  shows "xor_gt s c l \<Longrightarrow> eff_le (reverse s) (key s) (data s ! l) (data s ! c)"
    and "\<not> xor_gt s c l \<Longrightarrow> eff_le (reverse s) (key s) (data s ! c) (data s ! l)"
proof -
  let ?K = "key s ` set (data s)"
  from assms have K: "total_preorder_on ?K" "key s (data s ! c) \<in> ?K" "key s (data s ! l) \<in> ?K"
    by (simp_all add: keys_total_def)
  show "xor_gt s c l \<Longrightarrow> eff_le (reverse s) (key s) (data s ! l) (data s ! c)"
    using less_imp_le_on[OF K(1) K(3) K(2)] not_less_on[OF K(1) K(3) K(2)]
    by (cases "reverse s") (simp_all add: xor_gt_def eff_le_def)
  show "\<not> xor_gt s c l \<Longrightarrow> eff_le (reverse s) (key s) (data s ! c) (data s ! l)"
    using less_imp_le_on[OF K(1) K(3) K(2)] not_less_on[OF K(1) K(3) K(2)]
    by (cases "reverse s") (simp_all add: xor_gt_def eff_le_def)
qed

lemma keys_total_cong:
  assumes "key s' = key s" "mset (data s') = mset (data s)"
  shows "keys_total s' = keys_total s"
proof -
  from assms(2) have "set (data s') = set (data s)" by (rule mset_eq_setD)
  with assms(1) show ?thesis by (simp add: keys_total_def)
qed

lemma compare_child_max:
  assumes "compare_child n c l s = Inr (l', s')" "keys_total s" "l < length (data s)"
  shows "eff_le (reverse s) (key s) (data s ! l) (data s ! l') \<and>
    (c < n \<longrightarrow> eff_le (reverse s) (key s) (data s ! c) (data s ! l'))"
proof (cases "c < n")
  case False
  with assms(1) have "l' = l" by (simp add: compare_child_def)
  with False assms(2,3) show ?thesis
    by (simp add: eff_le_refl_on[of "key s ` set (data s)"] keys_total_def)
next
  case True
  let ?s1 = "s\<lparr>comparisons := comparisons s + 1\<rparr>"
  from True assms(1) have c: "c < length (data s)"
    and l': "l' = (if xor_gt ?s1 c l then c else l)"
    by (auto simp: compare_child_def Let_def split: if_splits)
  have x: "xor_gt ?s1 c l = xor_gt s c l" by (simp add: xor_gt_def)
  note sel = xor_gt_sel[OF assms(2) c assms(3)]
  have r: "eff_le (reverse s) (key s) (data s ! j) (data s ! j)" if "j < length (data s)" for j
    using that assms(2) by (simp add: eff_le_refl_on[of "key s ` set (data s)"] keys_total_def)
  show ?thesis
  proof (cases "xor_gt s c l")
    case True
    with l' x sel(1) r[OF c] show ?thesis by simp
  next
    case False
    with l' x sel(2) r[OF assms(3)] show ?thesis by simp
  qed
qed

lemma find_largest_max:
  assumes fl: "find_largest n i s = Inr (l, s')" and kt: "keys_total s"
    and n: "n \<le> length (data s)" "i < n"
  shows "eff_le (reverse s) (key s) (data s ! i) (data s ! l) \<and>
    (2 * i + 1 < n \<longrightarrow> eff_le (reverse s) (key s) (data s ! (2 * i + 1)) (data s ! l)) \<and>
    (2 * i + 2 < n \<longrightarrow> eff_le (reverse s) (key s) (data s ! (2 * i + 2)) (data s ! l))"
proof -
  let ?le = "eff_le (reverse s) (key s)"
  let ?K = "key s ` set (data s)"
  from fl obtain l1 s1 where
    a: "compare_child n (2 * i + 1) i s = Inr (l1, s1)" and
    b: "compare_child n (2 * i + 2) l1 s1 = Inr (l, s')"
    by (auto simp: find_largest_def split: sum.splits)
  from n have i: "i < length (data s)" by simp
  from compare_child_cases[OF a] i have l1: "l1 < length (data s)" by auto
  note fa = compare_child_frame[OF a]
  from fa kt have kt1: "keys_total s1" by (simp add: keys_total_def)
  from fa l1 have l1': "l1 < length (data s1)" by simp
  from compare_child_cases[OF b] l1 fa have l: "l < length (data s)" by auto
  note ma = compare_child_max[OF a kt i]
  from compare_child_max[OF b kt1 l1'] fa
  have mb: "?le (data s ! l1) (data s ! l)"
    "2 * i + 2 < n \<longrightarrow> ?le (data s ! (2 * i + 2)) (data s ! l)"
    by simp_all
  from kt have K: "total_preorder_on ?K" by (simp add: keys_total_def)
  have mem: "key s (data s ! j) \<in> ?K" if "j < length (data s)" for j using that by simp
  have t: "?le (data s ! j) (data s ! l)"
    if "j < length (data s)" "?le (data s ! j) (data s ! l1)" for j
    using eff_le_trans_on[OF K mem[OF that(1)] mem[OF l1] mem[OF l] that(2) mb(1)] .
  from ma t[OF i] have "?le (data s ! i) (data s ! l)" by simp
  moreover have "2 * i + 1 < n \<longrightarrow> ?le (data s ! (2 * i + 1)) (data s ! l)"
  proof
    assume c: "2 * i + 1 < n"
    with n have "2 * i + 1 < length (data s)" by simp
    from t[OF this] ma c show "?le (data s ! (2 * i + 1)) (data s ! l)" by simp
  qed
  ultimately show ?thesis using mb(2) by simp
qed

lemma sift_inv_swap:
  assumes inv: "sift_inv le xs lo n i"
    and lo: "lo \<le> i"
    and l: "l = 2 * i + 1 \<or> l = 2 * i + 2" "l < n" "n \<le> length xs"
    and mx: "le (xs ! i) (xs ! l)"
      "2 * i + 1 < n \<longrightarrow> le (xs ! (2 * i + 1)) (xs ! l)"
      "2 * i + 2 < n \<longrightarrow> le (xs ! (2 * i + 2)) (xs ! l)"
  shows "sift_inv le (xs[i := xs ! l, l := xs ! i]) lo n l"
proof -
  let ?ys = "xs[i := xs ! l, l := xs ! i]"
  from l have il: "i < l" "i < length xs" "l < length xs" by auto
  then have yi: "?ys ! i = xs ! l" and yl: "?ys ! l = xs ! i" by simp_all
  have yk: "?ys ! k = xs ! k" if "k \<noteq> i" "k \<noteq> l" for k using that by simp
  have A: "heap_at le ?ys n j" if j: "lo \<le> j" "j \<noteq> l" for j
  proof (cases "j = i")
    case True
    show ?thesis
    proof (cases "l = 2 * i + 1")
      case True
      with \<open>j = i\<close> mx yi yl yk[of "2 * i + 2"] show ?thesis by (simp add: heap_at_def)
    next
      case False
      with l(1) have "l = 2 * i + 2" by simp
      with \<open>j = i\<close> mx yi yl yk[of "2 * i + 1"] show ?thesis by (simp add: heap_at_def)
    qed
  next
    case False
    with inv j have h: "heap_at le xs n j" by (simp add: sift_inv_def)
    have yj: "?ys ! j = xs ! j" by (rule yk[OF False j(2)])
    have c: "le (?ys ! c) (?ys ! j)" if c: "c = 2 * j + 1 \<or> c = 2 * j + 2" "c < n" for c
    proof (cases "c = i")
      case True
      with inv j c l have "le (xs ! l) (xs ! j)" unfolding sift_inv_def by blast
      with True yi yj show ?thesis by simp
    next
      case False
      from c(1) l(1) \<open>j \<noteq> i\<close> have "c \<noteq> l" by presburger
      with False have "?ys ! c = xs ! c" by (intro yk)
      with h c yj show ?thesis by (auto simp: heap_at_def)
    qed
    show ?thesis unfolding heap_at_def using c by blast
  qed
  have B: "(2 * l + 1 < n \<longrightarrow> le (?ys ! (2 * l + 1)) (?ys ! j)) \<and>
           (2 * l + 2 < n \<longrightarrow> le (?ys ! (2 * l + 2)) (?ys ! j))"
    if j: "lo \<le> j" "l = 2 * j + 1 \<or> l = 2 * j + 2" for j
  proof -
    from j(2) l(1) have "j = i" by presburger
    from inv lo il have h: "heap_at le xs n l" by (simp add: sift_inv_def)
    from il have "?ys ! (2 * l + 1) = xs ! (2 * l + 1)" "?ys ! (2 * l + 2) = xs ! (2 * l + 2)"
      by (simp_all add: yk)
    with h \<open>j = i\<close> yi show ?thesis by (simp add: heap_at_def)
  qed
  from A B show ?thesis unfolding sift_inv_def by blast
qed

lemma mset_take_swap:
  assumes "i < n" "l < n" "n \<le> length xs"
  shows "mset (take n (xs[i := xs ! l, l := xs ! i])) = mset (take n xs)"
  using mset_swap[of l "take n xs" i] assms by (simp add: take_update_swap)

lemma heap_root_max:
  assumes h: "\<forall>j. heap_at le xs n j" and n: "n \<le> length xs"
    and refl: "\<And>a. a \<in> set xs \<Longrightarrow> le a a"
    and trans: "\<And>a b c. a \<in> set xs \<Longrightarrow> b \<in> set xs \<Longrightarrow> c \<in> set xs \<Longrightarrow>
       le a b \<Longrightarrow> le b c \<Longrightarrow> le a c"
  shows "j < n \<Longrightarrow> le (xs ! j) (xs ! 0)"
proof (induction j rule: less_induct)
  case (less j)
  from less.prems n have "j < length xs" "0 < length xs" by auto
  then have mem: "xs ! j \<in> set xs" "xs ! 0 \<in> set xs" by (auto intro: nth_mem)
  show ?case
  proof (cases "j = 0")
    case True
    with mem show ?thesis by (simp add: refl)
  next
    case False
    define p where "p = (j - 1) div 2"
    from False have p: "p < j" "j = 2 * p + 1 \<or> j = 2 * p + 2" unfolding p_def by presburger+
    from p(1) less.prems n have memp: "xs ! p \<in> set xs" by simp
    from h have "heap_at le xs n p" by simp
    with p(2) less.prems have "le (xs ! j) (xs ! p)" by (auto simp: heap_at_def)
    moreover from p(1) less.prems have "le (xs ! p) (xs ! 0)" by (intro less.IH) simp_all
    ultimately show ?thesis using trans[OF mem(1) memp mem(2)] by blast
  qed
qed

text \<open>Exchanges only: the working sequence keeps its elements, whatever the keys.\<close>

lemma heapify_mset:
  "heapify n i s = Inr s' \<Longrightarrow> mset (data s') = mset (data s)"
proof (induction n i s arbitrary: s' rule: heapify.induct)
  case (1 n i s)
  from "1.prems" show ?case
  proof (cases rule: heapify_Inr_cases)
    case stop
    from find_largest_frame[OF stop] show ?thesis by simp
  next
    case (swap l s1 s2)
    note fl = find_largest_frame[OF swap(1)]
    note hs = heapify_swap_frame[OF swap(3)]
    from hs have "mset (data s2) = mset (data s1)" by (simp add: mset_swap)
    with fl "1.IH"[OF swap(1) refl swap(2) swap(3) swap(4)] show ?thesis by simp
  qed
qed

lemma build_loop_mset:
  "build_loop n js s = Inr s' \<Longrightarrow> mset (data s') = mset (data s)"
proof (induction js arbitrary: s)
  case Nil
  then show ?case by simp
next
  case (Cons j js)
  from Cons.prems obtain s1 where
    h: "heapify n j s = Inr s1" and r: "build_loop n js s1 = Inr s'"
    by (auto split: sum.splits)
  from heapify_mset[OF h] Cons.IH[OF r] show ?case by simp
qed

lemma extract_loop_mset:
  "extract_loop js s = Inr s' \<Longrightarrow> mset (data s') = mset (data s)"
proof (induction js arbitrary: s)
  case Nil
  then show ?case by simp
next
  case (Cons j js)
  from Cons.prems obtain s1 s2 where
    w: "swap_and_log 0 j s = Inr s1" and h: "heapify j 0 s1 = Inr s2"
    and r: "extract_loop js s2 = Inr s'"
    by (auto split: sum.splits)
  from swap_and_log_frame[OF w] have "mset (data s1) = mset (data s)" by (simp add: mset_swap)
  with heapify_mset[OF h] Cons.IH[OF r] show ?case by simp
qed

lemma heapify_heap:
  "heapify n i s = Inr s' \<Longrightarrow> keys_total s \<Longrightarrow> n \<le> length (data s) \<Longrightarrow> i < n \<Longrightarrow>
   lo \<le> i \<Longrightarrow> sift_inv (eff_le (reverse s) (key s)) (data s) lo n i \<Longrightarrow>
     (\<forall>j\<ge>lo. heap_at (eff_le (reverse s) (key s)) (data s') n j)
     \<and> mset (take n (data s')) = mset (take n (data s))
     \<and> drop n (data s') = drop n (data s)"
proof (induction n i s arbitrary: s' rule: heapify.induct)
  case (1 n i s)
  let ?le = "eff_le (reverse s) (key s)"
  note kt = "1.prems"(2) and len = "1.prems"(3) and i = "1.prems"(4)
    and lo = "1.prems"(5) and inv = "1.prems"(6)
  from "1.prems"(1) show ?case
  proof (cases rule: heapify_Inr_cases)
    case stop
    from find_largest_frame[OF stop] have d: "data s' = data s" by simp
    from find_largest_max[OF stop kt len i] have "heap_at ?le (data s) n i"
      by (simp add: heap_at_def)
    with inv have "\<forall>j\<ge>lo. heap_at ?le (data s) n j" unfolding sift_inv_def by metis
    with d show ?thesis by simp
  next
    case (swap l s1 s2)
    note fl = find_largest_frame[OF swap(1)]
    note hs = heapify_swap_frame[OF swap(3)]
    from find_largest_child[OF swap(1)] swap(2)
    have l: "l = 2 * i + 1 \<or> l = 2 * i + 2" "l < n" by simp_all
    then have il: "lo \<le> l" using lo by auto
    from fl hs have d2: "data s2 = (data s)[i := data s ! l, l := data s ! i]"
      and p2: "reverse s2 = reverse s" "key s2 = key s" by simp_all
    from i l len have "mset (data s2) = mset (data s)" unfolding d2 by (intro mset_swap) auto
    with keys_total_cong[OF p2(2) this] kt have kt2: "keys_total s2" by simp
    from find_largest_max[OF swap(1) kt len i]
    have "sift_inv ?le (data s2) lo n l"
      unfolding d2 by (intro sift_inv_swap[OF inv lo l len]) simp_all
    moreover from d2 len have "n \<le> length (data s2)" by simp
    ultimately have ih: "(\<forall>j\<ge>lo. heap_at ?le (data s') n j)
       \<and> mset (take n (data s')) = mset (take n (data s2))
       \<and> drop n (data s') = drop n (data s2)"
      using "1.IH"[OF swap(1) refl swap(2) swap(3) swap(4) kt2 _ l(2) il] p2 by simp
    from i l len have "mset (take n (data s2)) = mset (take n (data s))"
      unfolding d2 by (intro mset_take_swap)
    moreover from i l have "drop n (data s2) = drop n (data s)"
      unfolding d2 by simp
    ultimately show ?thesis using ih by simp
  qed
qed

lemma build_loop_heap:
  "build_loop n (rev [0..<m]) s = Inr s' \<Longrightarrow> keys_total s \<Longrightarrow> n \<le> length (data s) \<Longrightarrow>
   m \<le> n \<Longrightarrow> \<forall>j\<ge>m. heap_at (eff_le (reverse s) (key s)) (data s) n j \<Longrightarrow>
     (\<forall>j. heap_at (eff_le (reverse s) (key s)) (data s') n j)"
proof (induction m arbitrary: s)
  case 0
  then show ?case by simp
next
  case (Suc m)
  let ?le = "eff_le (reverse s) (key s)"
  from Suc.prems(1) obtain s1 where
    h: "heapify n m s = Inr s1" and r: "build_loop n (rev [0..<m]) s1 = Inr s'"
    by (auto split: sum.splits)
  from Suc.prems(4) have m: "m < n" "m \<le> n" by simp_all
  have "sift_inv ?le (data s) m n m"
    unfolding sift_inv_def
  proof (intro conjI allI impI)
    fix j assume "m \<le> j \<and> j \<noteq> m"
    then have "Suc m \<le> j" by simp
    with Suc.prems(5) show "heap_at ?le (data s) n j" by blast
  qed auto
  from heapify_heap[OF h Suc.prems(2) Suc.prems(3) m(1) order_refl this] heapify_frame[OF h]
  have s1: "\<forall>j\<ge>m. heap_at (eff_le (reverse s1) (key s1)) (data s1) n j"
    "n \<le> length (data s1)" "reverse s1 = reverse s" "key s1 = key s"
    using Suc.prems(3) by simp_all
  from keys_total_cong[OF s1(4) heapify_mset[OF h]] Suc.prems(2) have "keys_total s1" by simp
  from Suc.IH[OF r this s1(2) m(2) s1(1)] s1 show ?case by simp
qed

lemma extract_loop_sorted:
  "extract_loop (rev [1..<m]) s = Inr s' \<Longrightarrow> keys_total s \<Longrightarrow> m \<le> length (data s) \<Longrightarrow>
   ext_inv (eff_le (reverse s) (key s)) (data s) m \<Longrightarrow>
     sorted_wrt (eff_le (reverse s) (key s)) (data s')"
proof (induction m arbitrary: s)
  case 0
  then show ?case by (simp add: ext_inv_def)
next
  case (Suc m)
  let ?le = "eff_le (reverse s) (key s)"
  let ?xs = "data s"
  let ?K = "key s ` set ?xs"
  note kt = Suc.prems(2) and inv = Suc.prems(4)
  show ?case
  proof (cases "m = 0")
    case True
    with Suc.prems(1) have s': "s' = s" by simp
    have "sorted_wrt ?le (take 1 ?xs @ drop 1 ?xs)"
      unfolding sorted_wrt_append using inv True
      by (auto simp: ext_inv_def sorted_wrt01)
    with s' show ?thesis by simp
  next
    case False
    then have rv: "rev [1..<Suc m] = m # rev [1..<m]" by simp
    from Suc.prems(1) obtain s1 s2 where
      w: "swap_and_log 0 m s = Inr s1" and h: "heapify m 0 s1 = Inr s2"
      and r: "extract_loop (rev [1..<m]) s2 = Inr s'"
      unfolding rv by (auto split: sum.splits)
    let ?ys = "?xs[0 := ?xs ! m, m := ?xs ! 0]"
    from swap_and_log_frame[OF w] have d1: "data s1 = ?ys"
      and p1: "reverse s1 = reverse s" "key s1 = key s" by simp_all
    from Suc.prems(3) False have m: "0 < m" "m < length ?xs" by simp_all
    from m have my: "mset ?ys = mset ?xs" by (intro mset_swap) auto
    with keys_total_cong[OF p1(2)] d1 kt have kt1: "keys_total s1" by simp
    have yk: "?ys ! k = ?xs ! k" if "k \<noteq> 0" "k \<noteq> m" for k using that by simp
    have "sift_inv ?le ?ys 0 m 0"
      unfolding sift_inv_def
    proof (intro conjI allI impI)
      fix j :: nat assume "0 \<le> j \<and> j \<noteq> 0"
      then have j: "j \<noteq> 0" by simp
      from inv have "heap_at ?le ?xs (Suc m) j" by (simp add: ext_inv_def)
      then show "heap_at ?le ?ys m j"
        using j by (auto simp: heap_at_def yk)
    qed auto
    with d1 p1 have "sift_inv (eff_le (reverse s1) (key s1)) (data s1) 0 m 0" by simp
    moreover from d1 m have "m \<le> length (data s1)" by simp
    ultimately have hp: "\<forall>j. heap_at ?le (data s2) m j"
      "mset (take m (data s2)) = mset (take m ?ys)"
      "drop m (data s2) = drop m ?ys"
      using heapify_heap[OF h kt1 _ m(1), of 0] d1 p1 by simp_all
    from heapify_frame[OF h] p1 d1 m
    have p2: "reverse s2 = reverse s" "key s2 = key s" "m \<le> length (data s2)" by simp_all
    from heapify_mset[OF h] d1 my have m2: "mset (data s2) = mset ?xs" by simp
    from keys_total_cong[OF p2(2) m2] kt have kt2: "keys_total s2" by simp
    from m have dy: "drop m ?ys = ?xs ! 0 # drop (Suc m) ?xs"
      by (simp add: Cons_nth_drop_Suc[symmetric])
    from kt have K: "total_preorder_on ?K" by (simp add: keys_total_def)
    have root: "?le x (?xs ! 0)" if "x \<in> set (take (Suc m) ?xs)" for x
    proof -
      from that obtain k where k: "k < Suc m" "x = ?xs ! k"
        using m by (auto simp: in_set_conv_nth)
      from inv have "\<forall>j. heap_at ?le ?xs (Suc m) j" by (simp add: ext_inv_def)
      moreover from m have "Suc m \<le> length ?xs" by simp
      moreover have "?le a a" if "a \<in> set ?xs" for a
        using that by (intro eff_le_refl_on[OF K]) simp
      moreover have "?le a c" if "a \<in> set ?xs" "b \<in> set ?xs" "c \<in> set ?xs" "?le a b" "?le b c"
        for a b c
        using that by (intro eff_le_trans_on[OF K _ _ _ that(4) that(5)]) simp_all
      ultimately have "?le (?xs ! k) (?xs ! 0)" using k(1) by (rule heap_root_max)
      with k(2) show ?thesis by simp
    qed
    from m have "mset (take (Suc m) ?ys) = mset (take (Suc m) ?xs)"
      by (intro mset_take_swap) simp_all
    then have "set (take (Suc m) ?ys) = set (take (Suc m) ?xs)" by (rule mset_eq_setD)
    moreover have "set (take m ?ys) \<subseteq> set (take (Suc m) ?ys)"
      by (rule set_take_subset_set_take) simp
    moreover from hp(2) have "set (take m (data s2)) = set (take m ?ys)" by (rule mset_eq_setD)
    ultimately have sub: "set (take m (data s2)) \<subseteq> set (take (Suc m) ?xs)" by simp
    from m have x0: "?xs ! 0 \<in> set (take (Suc m) ?xs)"
      by (auto simp: in_set_conv_nth intro!: exI[of _ 0])
    have "ext_inv ?le (data s2) m"
      unfolding ext_inv_def
    proof (intro conjI ballI)
      from hp(1) show "\<forall>j. heap_at ?le (data s2) m j" .
      from inv x0 show "sorted_wrt ?le (drop m (data s2))"
        unfolding hp(3) dy by (auto simp: ext_inv_def)
    next
      fix x y assume x: "x \<in> set (take m (data s2))" and y: "y \<in> set (drop m (data s2))"
      from x sub have x': "x \<in> set (take (Suc m) ?xs)" by blast
      from y have "y = ?xs ! 0 \<or> y \<in> set (drop (Suc m) ?xs)" unfolding hp(3) dy by simp
      then show "?le x y"
      proof
        assume "y = ?xs ! 0"
        with root[OF x'] show ?thesis by simp
      next
        assume "y \<in> set (drop (Suc m) ?xs)"
        with inv x' show ?thesis by (simp add: ext_inv_def)
      qed
    qed
    with p2 have "ext_inv (eff_le (reverse s2) (key s2)) (data s2) m" by simp
    from Suc.IH[OF r kt2 p2(3) this] p2 show ?thesis by simp
  qed
qed

lemma sort_hs_mset:
  "\<exists>s'. sort_hs t0 t1 s = Inr (data s', s') \<and> mset (data s') = mset (data s)
     \<and> (keys_total s \<longrightarrow> sorted_wrt (eff_le (reverse s) (key s)) (data s'))"
proof -
  let ?le = "eff_le (reverse s) (key s)"
  let ?n = "length (data s)"
  obtain s1 s2 where
    b: "build_loop ?n (rev [0..<?n div 2]) s = Inr s1" and
    e: "extract_loop (rev [1..<?n]) s1 = Inr s2" and
    r: "sort_hs t0 t1 s = Inr (data s2, s2\<lparr>execution_time := Some (t1 - t0)\<rparr>)"
    by (rule sort_hs_phases)
  from build_loop_mset[OF b] extract_loop_mset[OF e]
  have m: "mset (data s1) = mset (data s)" "mset (data s2) = mset (data s)" by simp_all
  note f1 = build_loop_frame[OF b]
  have "sorted_wrt ?le (data s2)" if kt: "keys_total s"
  proof -
    have "\<forall>j\<ge>?n div 2. heap_at ?le (data s) ?n j" by (auto simp: heap_at_def)
    from build_loop_heap[OF b kt order_refl _ this] f1
    have "ext_inv (eff_le (reverse s1) (key s1)) (data s1) ?n" by (simp add: ext_inv_def)
    moreover from keys_total_cong[of s1 s] f1 m(1) kt have "keys_total s1" by simp
    ultimately show ?thesis using extract_loop_sorted[OF e] f1 by simp
  qed
  with r m(2) show ?thesis by (intro exI[of _ "s2\<lparr>execution_time := Some (t1 - t0)\<rparr>"]) simp
qed

text \<open>
  C1, as stated: for every finite input sequence and every policy the result of
  \<^verbatim>\<open>sort\<close> is a permutation of the input in which each element and its successor
  are in the order of the policy. On the floats \<open>[2, nan, 1, 3, 0.5]\<close>, ascending,
  every test against NaN is false: \<^verbatim>\<open>_build_heap\<close> swaps nothing, and \<^verbatim>\<open>sort\<close>
  returns \<open>[nan, 0.5, 3, 1, 2]\<close>, where \<open>3\<close> stands before \<open>1\<close>.
\<close>

theorem sort_nan_counterexample:
  "\<not> isl (sort_hs 0 1 (HeapSort_init [Fl 2, NaN, Fl 1, Fl 3, Fl (1/2)] False id))
   \<and> fst (projr (sort_hs 0 1 (HeapSort_init [Fl 2, NaN, Fl 1, Fl 3, Fl (1/2)] False id)))
       = [NaN, Fl (1/2), Fl 3, Fl 1, Fl 2]
   \<and> Suc 2 < length (fst (projr (sort_hs 0 1
         (HeapSort_init [Fl 2, NaN, Fl 1, Fl 3, Fl (1/2)] False id))))
   \<and> \<not> eff_le False id
        (fst (projr (sort_hs 0 1 (HeapSort_init [Fl 2, NaN, Fl 1, Fl 3, Fl (1/2)] False id))) ! 2)
        (fst (projr (sort_hs 0 1 (HeapSort_init [Fl 2, NaN, Fl 1, Fl 3, Fl (1/2)] False id)))
           ! Suc 2)"
  by code_simp

text \<open>
  C1, amended: for every finite input sequence and every policy, \<^verbatim>\<open>sort\<close> on a new
  instance returns a sequence with the same elements as the input, counted with
  multiplicity; and if the comparison is a total preorder on the keys of the input
  (as it is on integers, strings and floats other than NaN), each element and its
  successor are in the order of the policy: the keys ascend when \<^verbatim>\<open>reverse\<close> is false
  and descend when it is true. The same then holds of any two positions.
\<close>

theorem sort_sorted_permutation:
  "\<exists>res s'. sort_hs t0 t1 (HeapSort_init xs r k) = Inr (res, s')
     \<and> mset res = mset xs
     \<and> (total_preorder_on (k ` set xs) \<longrightarrow>
          (\<forall>i. Suc i < length res \<longrightarrow> eff_le r k (res ! i) (res ! Suc i))
          \<and> sorted_wrt (eff_le r k) res)"
proof -
  from sort_hs_mset[of t0 t1 "HeapSort_init xs r k"] obtain s' where
    r: "sort_hs t0 t1 (HeapSort_init xs r k) = Inr (data s', s')" and
    m: "mset (data s') = mset xs" and
    s: "total_preorder_on (k ` set xs) \<longrightarrow> sorted_wrt (eff_le r k) (data s')"
    by (auto simp: HeapSort_init_def keys_total_def)
  from s have "total_preorder_on (k ` set xs) \<longrightarrow>
      (\<forall>i. Suc i < length (data s') \<longrightarrow> eff_le r k (data s' ! i) (data s' ! Suc i))"
    by (simp add: sorted_wrt_iff_nth_less)
  with r m s show ?thesis by blast
qed

theorem sort_sorted_permutation_witness:
  "total_preorder_on (id ` set [Fl 2, Fl 1, Fl 3, Fl (1/2)])
   \<and> fst (projr (sort_hs 0 1 (HeapSort_init [Fl 2, Fl 1, Fl 3, Fl (1/2)] True id)))
       = [Fl 3, Fl 2, Fl 1, Fl (1/2)]
   \<and> mset (fst (projr (sort_hs 0 1 (HeapSort_init [Fl 2, Fl 1, Fl 3, Fl (1/2)] True id))))
       = mset [Fl 2, Fl 1, Fl 3, Fl (1/2)]
   \<and> Suc 0 < length (fst (projr (sort_hs 0 1 (HeapSort_init [Fl 2, Fl 1, Fl 3, Fl (1/2)] True id))))
   \<and> eff_le True id
        (fst (projr (sort_hs 0 1 (HeapSort_init [Fl 2, Fl 1, Fl 3, Fl (1/2)] True id))) ! 0)
        (fst (projr (sort_hs 0 1 (HeapSort_init [Fl 2, Fl 1, Fl 3, Fl (1/2)] True id))) ! Suc 0)
   \<and> sorted_wrt (eff_le True id)
        (fst (projr (sort_hs 0 1 (HeapSort_init [Fl 2, Fl 1, Fl 3, Fl (1/2)] True id))))"
proof -
  have t: "total_preorder_on (id ` set [Fl 2, Fl 1, Fl 3, Fl (1/2)])"
    by code_simp
  have e: "fst (projr (sort_hs 0 1 (HeapSort_init [Fl 2, Fl 1, Fl 3, Fl (1/2)] True id)))
      = [Fl 3, Fl 2, Fl 1, Fl (1/2)]"
    by code_simp
  from sort_sorted_permutation[of 0 1 "[Fl 2, Fl 1, Fl 3, Fl (1/2)]" True id] t
  obtain res s' where
    r: "sort_hs 0 1 (HeapSort_init [Fl 2, Fl 1, Fl 3, Fl (1/2)] True id) = Inr (res, s')" and
    m: "mset res = mset [Fl 2, Fl 1, Fl 3, Fl (1/2)]" and
    c: "\<forall>i. Suc i < length res \<longrightarrow> eff_le True id (res ! i) (res ! Suc i)" and
    s: "sorted_wrt (eff_le True id) res"
    by blast
  from r e have res: "res = [Fl 3, Fl 2, Fl 1, Fl (1/2)]" by simp
  then have l: "Suc 0 < length res" by simp
  with c have "eff_le True id (res ! 0) (res ! Suc 0)" by blast
  with r m s l t e show ?thesis by simp
qed

end
